theory Spec2Isabelle
  imports Main
begin

text \<open>
  The poem parser of poesy-maker (\<open>parser.py\<close>): \<open>slugify\<close>, \<open>split_poems\<close> with
  \<open>_split_on_trailing_author\<close>, \<open>parse_poem_chunk\<close> with \<open>_is_known_author\<close>,
  \<open>load_author_overrides\<close> and the loop of \<open>fetch_and_parse\<close>, as functions on lists of code
  points. An exception is a value of a sum type. Every regular expression of the source is
  a function of its own, written for the subjects the source applies it to.
\<close>

section \<open>Text\<close>

text \<open>
  A Python \<open>str\<close> is a sequence of Unicode code points. A code point is a natural number
  here, so that \<open>str.strip()\<close>, the regular expressions' \<open>\s\<close> and the ASCII encoding of
  \<open>slugify\<close> see the characters the interpreter sees. \<open>py\<close> reads a literal.
\<close>

type_synonym str = "nat list"

definition py :: "string \<Rightarrow> str" where
  "py s = map of_char s"

text \<open>
  \<open>str.strip()\<close> with no argument and \<open>\s\<close> in a \<open>str\<close> pattern both test
  \<open>Py_UNICODE_ISSPACE\<close>: U+0009..U+000D, U+001C..U+0020, U+0085, U+00A0, U+1680,
  U+2000..U+200A, U+2028, U+2029, U+202F, U+205F, U+3000.
\<close>

definition is_space :: "nat \<Rightarrow> bool" where
  "is_space c \<longleftrightarrow>
     (9 \<le> c \<and> c \<le> 13) \<or> (28 \<le> c \<and> c \<le> 32) \<or> c = 133 \<or> c = 160 \<or> c = 5760 \<or>
     (8192 \<le> c \<and> c \<le> 8202) \<or> c = 8232 \<or> c = 8233 \<or> c = 8239 \<or> c = 8287 \<or> c = 12288"

definition rstrip :: "str \<Rightarrow> str" where
  "rstrip s = rev (dropWhile is_space (rev s))"

definition strip :: "str \<Rightarrow> str" where
  "strip s = dropWhile is_space (rstrip s)"

text \<open>\<open>s.split("\n")\<close>: always at least one piece; the newline is code point 10.\<close>

fun split_nl :: "str \<Rightarrow> str list" where
  "split_nl [] = [[]]"
| "split_nl (c # cs) =
     (if c = 10 then [] # split_nl cs
      else (case split_nl cs of l # ls \<Rightarrow> (c # l) # ls | [] \<Rightarrow> [[c]]))"

text \<open>\<open>"\n".join(lines)\<close>.\<close>

fun join_nl :: "str list \<Rightarrow> str" where
  "join_nl [] = []"
| "join_nl [l] = l"
| "join_nl (l # ls) = l @ 10 # join_nl ls"

section \<open>The patterns of \<open>parse_poem_chunk\<close>\<close>

text \<open>
  The three patterns below are matched with \<open>re.match\<close> against \<open>line.strip()\<close> for a
  \<open>line\<close> of \<open>raw.split("\n")\<close>, so the subject never holds a newline: \<open>.\<close> matches every
  character of it and \<open>$\<close> only its end. Each function returns group 1 of the match.

  \<open>after_spaces m s\<close> is what \<open>\s*(.+)$\<close> (\<open>m = 0\<close>) or \<open>\s+(.+)$\<close> (\<open>m = 1\<close>) captures
  on \<open>s\<close>: the greedy \<open>\s\<close> run takes every leading space; when nothing is left for \<open>.+\<close>
  it gives one character back, if it can keep \<open>m\<close>.
\<close>

definition after_spaces :: "nat \<Rightarrow> str \<Rightarrow> str option" where
  "after_spaces m s =
     (let v = takeWhile is_space s; r = dropWhile is_space s
      in if length v < m then None
         else if r \<noteq> [] then Some r
         else if m < length v then Some [last v]
         else None)"

text \<open>\<open>re.match(r"^--\s*(.+)$", last_line)\<close>; the hyphen is code point 45.\<close>

definition trailing_match :: "str \<Rightarrow> str option" where
  "trailing_match s = (if take 2 s = [45, 45] then after_spaces 0 (drop 2 s) else None)"

text \<open>\<open>re.match(r"^[Bb]y\s+(.+)$", second_line)\<close>.\<close>

definition by_match :: "str \<Rightarrow> str option" where
  "by_match s =
     (if take 2 s = py ''By'' \<or> take 2 s = py ''by'' then after_spaces 1 (drop 2 s) else None)"

text \<open>
  \<open>re.match(r"^[Tt]ranslated\s+[Bb]y\s+", line)\<close>, used as a truth value. The first
  \<open>\s+\<close> must take its whole run (the next character has to be \<open>B\<close> or \<open>b\<close>); the last
  one needs a single space.
\<close>

definition translated_match :: "str \<Rightarrow> bool" where
  "translated_match s \<longleftrightarrow>
     (take 10 s = py ''Translated'' \<or> take 10 s = py ''translated'') \<and>
     (let v = takeWhile is_space (drop 10 s); r = dropWhile is_space (drop 10 s)
      in v \<noteq> [] \<and> (take 2 r = py ''By'' \<or> take 2 r = py ''by'') \<and>
         (case drop 2 r of [] \<Rightarrow> False | w # _ \<Rightarrow> is_space w))"

section \<open>Known authors\<close>

definition KNOWN_AUTHORS :: "str list" where
  "KNOWN_AUTHORS = map py
     [''Paul Celan'', ''Mary Oliver'', ''Amiri Baraka'', ''Rabia al-Basri'',
      ''Constantine P. Cavafy'', ''Ingeborg Bachmann'', ''Yehuda Amichai'', ''Pablo Neruda'',
      ''Stephen Dobyns'', ''Anne Sexton'', ''Delmore Schwartz'']"

text \<open>
  \<open>re.sub(r"\s*\(.*\)\s*$", "", text)\<close> on the stripped, newline-free \<open>text\<close>. A match
  starting at a position is a run of spaces, \<open>(\<close> (code point 40), anything, a \<open>)\<close> (41)
  and only spaces up to the end; \<open>.*\<close> backtracks to the last \<open>)\<close>, which is the only one
  that can be followed by spaces alone. The leftmost match runs to the end of the text, so
  the substitution keeps what stands before it.
\<close>

definition paren_tail :: "str \<Rightarrow> bool" where
  "paren_tail s \<longleftrightarrow>
     (case dropWhile is_space s of
        [] \<Rightarrow> False
      | c # t \<Rightarrow> c = 40 \<and> (case rev (rstrip t) of [] \<Rightarrow> False | d # _ \<Rightarrow> d = 41))"

fun drop_paren_tail :: "str \<Rightarrow> str" where
  "drop_paren_tail [] = []"
| "drop_paren_tail (c # cs) = (if paren_tail (c # cs) then [] else c # drop_paren_tail cs)"

definition is_known_author :: "str \<Rightarrow> bool" where
  "is_known_author text = (drop_paren_tail (strip text) \<in> set KNOWN_AUTHORS)"

section \<open>\<open>parse_poem_chunk\<close>\<close>

datatype error = IndexError

record parsed =
  p_title :: str
  p_author :: "str option"
  p_body :: str

text \<open>\<open>not line.strip()\<close>.\<close>

definition blank :: "str \<Rightarrow> bool" where
  "blank l \<longleftrightarrow> strip l = []"

text \<open>\<open>while lines and not lines[-1].strip(): lines.pop()\<close>.\<close>

definition pop_blank :: "str list \<Rightarrow> str list" where
  "pop_blank ls = rev (dropWhile blank (rev ls))"

text \<open>Lines 70 to 76: the lines of the chunk without leading and trailing blank lines.\<close>

definition trim_lines :: "str \<Rightarrow> str list" where
  "trim_lines raw = pop_blank (dropWhile blank (split_nl raw))"

text \<open>
  Lines 85 to 94, on a non-empty list: the trailing attribution, and the lines that are
  left for the header and the body.
\<close>

definition take_trailing :: "str list \<Rightarrow> str option \<times> str list" where
  "take_trailing ls =
     (case trailing_match (strip (last ls)) of
        Some g \<Rightarrow> (Some (strip g), pop_blank (butlast ls))
      | None \<Rightarrow> (None, ls))"

text \<open>
  Lines 96 to 130, on a non-empty list: the header cascade, giving \<open>title\<close>, \<open>author\<close>
  and \<open>body_start\<close>.
\<close>

definition header :: "str list \<Rightarrow> str \<times> str option \<times> nat" where
  "header ls =
     (let first_line = strip (ls ! 0) in
      if 1 < length ls then
        let second_line = strip (ls ! 1) in
        (case by_match second_line of
           Some g \<Rightarrow>
             (first_line, Some (strip g),
              if 2 < length ls \<and> translated_match (strip (ls ! 2)) then 3 else 2)
         | None \<Rightarrow>
             if is_known_author second_line then (first_line, Some second_line, 2)
             else if is_known_author first_line \<and> \<not> is_known_author second_line
               then (second_line, Some first_line, 2)
             else (first_line, None, 1))
      else (first_line, None, 1))"

text \<open>Python's truth value of an optional string: neither \<open>None\<close> nor empty.\<close>

definition truthy :: "str option \<Rightarrow> bool" where
  "truthy a \<longleftrightarrow> (case a of None \<Rightarrow> False | Some s \<Rightarrow> s \<noteq> [])"

text \<open>
  The whole function. \<open>lines[0]\<close> at line 97 raises \<open>IndexError\<close> when the trailing
  attribution was the only line.
\<close>

definition parse_poem_chunk :: "str \<Rightarrow> error + parsed option" where
  "parse_poem_chunk raw =
     (let ls = trim_lines raw in
      if ls = [] then Inr None
      else
        (case take_trailing ls of
           (trailing_author, ls') \<Rightarrow>
             if ls' = [] then Inl IndexError
             else
               (case header ls' of
                  (title, author, body_start) \<Rightarrow>
                    Inr (Some \<lparr>p_title = title,
                      p_author = (if \<not> truthy author \<and> truthy trailing_author
                                  then trailing_author else author),
                      p_body = join_nl (dropWhile blank (drop body_start ls'))\<rparr>))))"

section \<open>\<open>slugify\<close>\<close>

text \<open>
  \<open>unicodedata.normalize("NFKD", text)\<close> is a table of the Unicode standard; it is the
  parameter \<open>nfkd\<close>. \<open>encode("ascii", "ignore").decode("ascii")\<close> keeps the code points
  below 128. After it the text is ASCII, where \<open>str.lower()\<close> moves \<open>A\<close>..\<open>Z\<close> (65..90)
  to \<open>a\<close>..\<open>z\<close> and nothing else.
\<close>

definition ascii_ignore :: "str \<Rightarrow> str" where
  "ascii_ignore s = filter (\<lambda>c. c < 128) s"

definition lower :: "nat \<Rightarrow> nat" where
  "lower c = (if 65 \<le> c \<and> c \<le> 90 then c + 32 else c)"

text \<open>The class \<open>[a-z0-9]\<close>.\<close>

definition slug_char :: "nat \<Rightarrow> bool" where
  "slug_char c \<longleftrightarrow> (97 \<le> c \<and> c \<le> 122) \<or> (48 \<le> c \<and> c \<le> 57)"

text \<open>
  \<open>re.sub(r"[^a-z0-9]+", "-", text)\<close>: every maximal run of characters outside the class
  becomes one hyphen. The flag says that the run's hyphen is already written.
\<close>

fun sub_runs :: "bool \<Rightarrow> str \<Rightarrow> str" where
  "sub_runs b [] = []"
| "sub_runs b (c # cs) =
     (if slug_char c then c # sub_runs False cs
      else if b then sub_runs True cs
      else 45 # sub_runs True cs)"

text \<open>\<open>text.strip("-")\<close>.\<close>

definition strip_hyphens :: "str \<Rightarrow> str" where
  "strip_hyphens s = dropWhile (\<lambda>c. c = 45) (rev (dropWhile (\<lambda>c. c = 45) (rev s)))"

definition slugify :: "(str \<Rightarrow> str) \<Rightarrow> str \<Rightarrow> str" where
  "slugify nfkd text = strip_hyphens (sub_runs False (map lower (ascii_ignore (nfkd text))))"

section \<open>\<open>split_poems\<close>\<close>

text \<open>
  The separator \<open>\n_{4,}\n?\<close> at the head of \<open>s\<close>: a newline, all the underscores (code
  point 95) that follow, four at least, and the newline after them when there is one.
  \<open>delim_len\<close> is the length of the match.
\<close>

definition delim_len :: "str \<Rightarrow> nat option" where
  "delim_len s =
     (case s of
        [] \<Rightarrow> None
      | c # t \<Rightarrow>
          (let us = takeWhile (\<lambda>x. x = 95) t; r = dropWhile (\<lambda>x. x = 95) t
           in if c = 10 \<and> 4 \<le> length us
              then Some (1 + length us + (if take 1 r = [10] then 1 else 0))
              else None))"

text \<open>
  \<open>re.split(r"\n_{4,}\n?", text)\<close>: the scan goes from left to right, a match closes the
  current piece \<open>cur\<close> and the scan goes on behind the match.
\<close>

function re_split :: "str \<Rightarrow> str \<Rightarrow> str list" where
  "re_split cur [] = [cur]"
| "re_split cur (c # cs) =
     (case delim_len (c # cs) of
        Some n \<Rightarrow> cur # re_split [] (drop n (c # cs))
      | None \<Rightarrow> re_split (cur @ [c]) cs)"
  by pat_completeness auto
termination
  by (relation "measure (\<lambda>(cur, s). length s)")
    (auto simp: delim_len_def Let_def split: if_splits)

text \<open>
  \<open>re.search(r"^(--\s*.+)$\n(\s*\n){2,}", chunk, re.MULTILINE)\<close>, from the inside out.

  \<open>attribution_tail u\<close> matches \<open>.+$\n(\s*\n){2,}\<close> at the head of \<open>u\<close> and gives the
  length of the match. \<open>.+\<close> has to run to the end of its line, since \<open>$\n\<close> needs the
  newline there. \<open>(\s*\n){2,}\<close> stays inside the run of spaces \<open>w\<close> that follows, needs two
  newlines in it, and, greedy, ends behind the last one.
\<close>

definition attribution_tail :: "str \<Rightarrow> nat option" where
  "attribution_tail u =
     (let d = takeWhile (\<lambda>c. c \<noteq> 10) u; r = dropWhile (\<lambda>c. c \<noteq> 10) u;
          w = takeWhile is_space (drop 1 r)
      in if d = [] \<or> r = [] then None
         else if 2 \<le> length (filter (\<lambda>c. c = 10) w)
           then Some (length d + 1 + (length w - length (takeWhile (\<lambda>c. c \<noteq> 10) (rev w))))
         else None)"

text \<open>
  \<open>\s*\<close> in front of it is greedy and backtracks: it first takes \<open>k\<close> characters, then
  \<open>k - 1\<close>, down to none. \<open>t\<close> is the text behind the two hyphens.
\<close>

fun attribution_spaces :: "str \<Rightarrow> nat \<Rightarrow> nat option" where
  "attribution_spaces t 0 = attribution_tail t"
| "attribution_spaces t (Suc k) =
     (case attribution_tail (drop (Suc k) t) of
        Some n \<Rightarrow> Some (Suc k + n)
      | None \<Rightarrow> attribution_spaces t k)"

text \<open>The whole pattern at a line start \<open>s\<close>: the length of the match.\<close>

definition attribution_at :: "str \<Rightarrow> nat option" where
  "attribution_at s =
     (if take 2 s = [45, 45]
      then (case attribution_spaces (drop 2 s) (length (takeWhile is_space (drop 2 s))) of
              Some n \<Rightarrow> Some (2 + n)
            | None \<Rightarrow> None)
      else None)"

text \<open>
  The search: \<open>^\<close> with \<open>re.MULTILINE\<close> holds at the start of the text and behind every
  newline. \<open>search_attribution pos at_start s\<close> scans the rest \<open>s\<close> of the chunk, which
  begins at offset \<open>pos\<close>, and gives \<open>match.end()\<close> of the leftmost match.
\<close>

fun search_attribution :: "nat \<Rightarrow> bool \<Rightarrow> str \<Rightarrow> nat option" where
  "search_attribution pos at_start [] = None"
| "search_attribution pos at_start (c # cs) =
     (case (if at_start then attribution_at (c # cs) else None) of
        Some n \<Rightarrow> Some (pos + n)
      | None \<Rightarrow> search_attribution (Suc pos) (c = 10) cs)"

text \<open>
  \<open>_split_on_trailing_author\<close>. The recursion is on a proper suffix of the chunk: \<open>first\<close>
  is not empty, so \<open>split_pos\<close> is not 0.
\<close>

function split_on_trailing_author :: "str \<Rightarrow> str list" where
  "split_on_trailing_author chunk =
     (case search_attribution 0 True chunk of
        Some split_pos \<Rightarrow>
          (let first = strip (take split_pos chunk); rest = strip (drop split_pos chunk)
           in if first \<noteq> [] \<and> rest \<noteq> []
              then first # split_on_trailing_author rest
              else [chunk])
      | None \<Rightarrow> [chunk])"
  by pat_completeness auto

termination
proof (relation "measure length")
  show "wf (measure length)"
    by simp
next
  fix chunk :: str and split_pos :: nat and first rest :: str
  assume first: "first = strip (take split_pos chunk)"
    and rest: "rest = strip (drop split_pos chunk)"
    and both: "first \<noteq> [] \<and> rest \<noteq> []"
  have "split_pos \<noteq> 0"
  proof
    assume "split_pos = 0"
    then have "first = []"
      using first by (simp add: strip_def rstrip_def)
    then show False
      using both by simp
  qed
  moreover have "chunk \<noteq> []"
  proof
    assume "chunk = []"
    then have "first = []"
      using first by (simp add: strip_def rstrip_def)
    then show False
      using both by simp
  qed
  ultimately have "length (drop split_pos chunk) < length chunk"
    by simp
  moreover have "length rest \<le> length (drop split_pos chunk)"
    unfolding rest strip_def rstrip_def
    by (metis length_dropWhile_le length_rev le_trans)
  ultimately show "(rest, chunk) \<in> measure length"
    by simp
qed

declare split_on_trailing_author.simps [simp del]

text \<open>
  \<open>split_poems\<close>: the pieces of the primary split, stripped, the empty ones dropped; then
  every chunk split again at its trailing attributions.
\<close>

definition primary_chunks :: "str \<Rightarrow> str list" where
  "primary_chunks text = map strip (filter (\<lambda>c. strip c \<noteq> []) (re_split [] text))"

definition split_poems :: "str \<Rightarrow> str list" where
  "split_poems text = concat (map split_on_trailing_author (primary_chunks text))"

section \<open>\<open>fetch_and_parse\<close>\<close>

record poem =
  index :: nat
  title :: str
  author :: "str option"
  slug :: str
  body :: str

text \<open>
  The loop of lines 190 to 210 over \<open>enumerate(chunks)\<close>: \<open>i\<close> is the position of the
  chunk, \<open>poems\<close> the list built so far. \<open>overrides\<close> is the mapping of
  \<open>load_author_overrides\<close>, from slugs to author names.
\<close>

fun assemble :: "(str \<Rightarrow> str) \<Rightarrow> (str \<rightharpoonup> str) \<Rightarrow> nat \<Rightarrow> str list \<Rightarrow> poem list \<Rightarrow> error + poem list" where
  "assemble nfkd overrides i [] poems = Inr poems"
| "assemble nfkd overrides i (chunk # chunks) poems =
     (case parse_poem_chunk chunk of
        Inl e \<Rightarrow> Inl e
      | Inr None \<Rightarrow> assemble nfkd overrides (i + 1) chunks poems
      | Inr (Some p) \<Rightarrow>
          (let slug = slugify nfkd (p_title p);
               author = (case overrides slug of Some a \<Rightarrow> Some a | None \<Rightarrow> p_author p)
           in assemble nfkd overrides (i + 1) chunks
                (poems @ [\<lparr>index = i + 1, title = p_title p, author = author, slug = slug,
                           body = p_body p\<rparr>])))"

text \<open>
  \<open>fetch_and_parse\<close>, with the text that \<open>fetch_doc_text\<close> returned and the mapping that
  \<open>load_author_overrides\<close> returned as arguments.
\<close>

definition fetch_and_parse :: "(str \<Rightarrow> str) \<Rightarrow> str \<Rightarrow> (str \<rightharpoonup> str) \<Rightarrow> error + poem list" where
  "fetch_and_parse nfkd text overrides = assemble nfkd overrides 0 (split_poems text) []"

section \<open>\<open>load_author_overrides\<close>\<close>

text \<open>
  The values that \<open>json.load\<close> builds. A number is a Python \<open>int\<close> or \<open>float\<close>; \<open>json.load\<close>
  also reads \<open>NaN\<close>, \<open>Infinity\<close> and \<open>-Infinity\<close> as floats. Nothing below looks into a
  number, so the type of numbers is a parameter. An object keeps its members in the order
  of the text; in the dict a later member replaces an earlier one of the same name.
\<close>

datatype 'n json =
  JNull | JBool bool | JNumber 'n | JString str | JArray "'n json list"
  | JObject "(str \<times> 'n json) list"

text \<open>
  The exceptions of the \<open>try\<close> block. \<open>open(AUTHORS_JSON)\<close> raises \<open>FileNotFoundError\<close>
  for a missing file and another \<open>OSError\<close> for a file it may not or cannot open
  (\<open>PermissionError\<close>, \<open>IsADirectoryError\<close>, \<open>NotADirectoryError\<close>, \<open>OSError\<close> for the rest).
  \<open>json.load(f)\<close> raises \<open>UnicodeDecodeError\<close> for bytes that are not text in the file's
  encoding, \<open>json.JSONDecodeError\<close> for text it rejects, and \<open>RecursionError\<close> for text
  nested too deeply. \<open>data.get\<close> raises \<open>AttributeError\<close> when \<open>data\<close> is not a dict.
  \<open>OtherException\<close> is any exception of another class (\<open>MemoryError\<close>, say).
\<close>

datatype exn =
  FileNotFoundError | PermissionError | IsADirectoryError | NotADirectoryError | OSError
  | UnicodeDecodeError | JSONDecodeError | RecursionError | AttributeError | OtherException

text \<open>
  The state of the store is what \<open>open\<close> and \<open>json.load\<close> do with it: one of them raises,
  or \<open>json.load\<close> returns a value.
\<close>

datatype 'n store = Raises exn | Loads "'n json"

text \<open>
  \<open>except (FileNotFoundError, json.JSONDecodeError)\<close>. Neither class has a subclass among
  the exceptions above; \<open>UnicodeDecodeError\<close> is a \<open>ValueError\<close> like \<open>JSONDecodeError\<close>,
  not a subclass of it.
\<close>

definition caught :: "exn \<Rightarrow> bool" where
  "caught e \<longleftrightarrow> e = FileNotFoundError \<or> e = JSONDecodeError"

text \<open>\<open>data.get("overrides", {})\<close>.\<close>

definition get_overrides :: "'n json \<Rightarrow> exn + 'n json" where
  "get_overrides data =
     (case data of
        JObject members \<Rightarrow>
          (case map_of (rev members) (py ''overrides'') of
             Some v \<Rightarrow> Inr v
           | None \<Rightarrow> Inr (JObject []))
      | _ \<Rightarrow> Inl AttributeError)"

definition load_author_overrides :: "'n store \<Rightarrow> exn + 'n json" where
  "load_author_overrides st =
     (case st of
        Raises e \<Rightarrow> if caught e then Inr (JObject []) else Inl e
      | Loads data \<Rightarrow>
          (case get_overrides data of
             Inl e \<Rightarrow> if caught e then Inr (JObject []) else Inl e
           | Inr v \<Rightarrow> Inr v))"

section \<open>The specification's split\<close>

text \<open>
  The specification's wording of a separator, for comparison with the pattern: a line of
  the document that consists of four or more underscores.
\<close>

definition spec_delimiter_line :: "str \<Rightarrow> bool" where
  "spec_delimiter_line l \<longleftrightarrow> 4 \<le> length l \<and> list_all (\<lambda>c. c = 95) l"

definition spec_delimiter_lines :: "str \<Rightarrow> nat" where
  "spec_delimiter_lines text = length (filter spec_delimiter_line (split_nl text))"

text \<open>
  The primary split as the specification words it: the document is broken on its
  separator lines, which gives one group of lines more than there are separator lines
  (\<open>cur\<close> is the group being collected), and the chunks that are empty after trimming are
  discarded.
\<close>

fun spec_split :: "str list \<Rightarrow> str list \<Rightarrow> str list list" where
  "spec_split cur [] = [cur]"
| "spec_split cur (l # ls) =
     (if spec_delimiter_line l then cur # spec_split [] ls else spec_split (cur @ [l]) ls)"

definition spec_split_poems :: "str \<Rightarrow> str list" where
  "spec_split_poems text =
     filter (\<lambda>c. c \<noteq> []) (map (\<lambda>g. strip (join_nl g)) (spec_split [] (split_nl text)))"

section \<open>Shape of a slug\<close>

text \<open>
  The character classes of the claim about \<open>slugify\<close>: ASCII letters, digits, upper case.
\<close>

definition ascii_letter :: "nat \<Rightarrow> bool" where
  "ascii_letter c \<longleftrightarrow> (65 \<le> c \<and> c \<le> 90) \<or> (97 \<le> c \<and> c \<le> 122)"

definition ascii_digit :: "nat \<Rightarrow> bool" where
  "ascii_digit c \<longleftrightarrow> 48 \<le> c \<and> c \<le> 57"

definition ascii_upper :: "nat \<Rightarrow> bool" where
  "ascii_upper c \<longleftrightarrow> 65 \<le> c \<and> c \<le> 90"

text \<open>Two hyphens side by side somewhere in the text.\<close>

fun double_hyphen :: "str \<Rightarrow> bool" where
  "double_hyphen (a # b # cs) = ((a = 45 \<and> b = 45) \<or> double_hyphen (b # cs))"
| "double_hyphen _ = False"

lemmas model_defs =
  py_def is_space_def rstrip_def strip_def after_spaces_def trailing_match_def by_match_def
  translated_match_def KNOWN_AUTHORS_def paren_tail_def is_known_author_def blank_def
  pop_blank_def trim_lines_def take_trailing_def header_def truthy_def parse_poem_chunk_def
  ascii_ignore_def lower_def slug_char_def strip_hyphens_def slugify_def delim_len_def
  attribution_tail_def attribution_at_def primary_chunks_def split_poems_def
  fetch_and_parse_def load_author_overrides_def caught_def get_overrides_def
  spec_split_poems_def spec_delimiter_line_def
  spec_delimiter_lines_def ascii_letter_def ascii_digit_def ascii_upper_def
  split_on_trailing_author.simps

section \<open>Facts about stripping and the captured groups\<close>

lemma rstrip_last: "rstrip s \<noteq> [] \<Longrightarrow> \<not> is_space (last (rstrip s))"
  unfolding rstrip_def
  by (metis dropWhile_eq_Nil_conv hd_dropWhile last_rev rev_is_Nil_conv)

lemma last_dropWhile: "dropWhile P s \<noteq> [] \<Longrightarrow> last (dropWhile P s) = last s"
  by (induction s) (auto split: if_splits)

lemma strip_last: "strip s \<noteq> [] \<Longrightarrow> \<not> is_space (last (strip s))"
  unfolding strip_def
  by (metis dropWhile.simps(1) last_dropWhile rstrip_last)

lemma strip_hd: "strip s \<noteq> [] \<Longrightarrow> \<not> is_space (hd (strip s))"
  unfolding strip_def by (rule hd_dropWhile)

lemma dropWhile_id: "xs = [] \<or> \<not> P (hd xs) \<Longrightarrow> dropWhile P xs = xs"
  by (cases xs) auto

lemma strip_id: "s \<noteq> [] \<Longrightarrow> \<not> is_space (hd s) \<Longrightarrow> \<not> is_space (last s) \<Longrightarrow> strip s = s"
  unfolding strip_def rstrip_def
  by (simp add: dropWhile_id hd_rev)

lemma after_spaces_stripped:
  assumes "after_spaces m s = Some g" and "s = [] \<or> \<not> is_space (last s)"
  shows "g \<noteq> [] \<and> strip g = g"
proof (cases "dropWhile is_space s = []")
  case True
  then have "\<forall>c\<in>set s. is_space c"
    by (simp add: dropWhile_eq_Nil_conv)
  with assms(2) have "s = []"
    using last_in_set by blast
  with assms(1) show ?thesis
    by (simp add: after_spaces_def split: if_splits)
next
  case False
  with assms(1) have g: "g = dropWhile is_space s"
    by (auto simp: after_spaces_def Let_def split: if_splits)
  have "\<not> is_space (hd g)"
    unfolding g using False by (rule hd_dropWhile)
  moreover have "last g = last s"
    unfolding g using False by (rule last_dropWhile)
  moreover have "s \<noteq> []"
    using False by auto
  ultimately show ?thesis
    using assms(2) False g strip_id by auto
qed

lemma drop_last_stripped:
  "s = [] \<or> \<not> is_space (last s) \<Longrightarrow> drop n s = [] \<or> \<not> is_space (last (drop n s))"
  by (cases "drop n s = []") (auto simp: last_drop)

lemma trailing_match_strip:
  "trailing_match (strip l) = Some g \<Longrightarrow> g \<noteq> [] \<and> strip g = g"
  unfolding trailing_match_def
  using after_spaces_stripped drop_last_stripped strip_last
  by (metis option.distinct(1))

lemma by_match_strip:
  "by_match (strip l) = Some g \<Longrightarrow> g \<noteq> [] \<and> strip g = g"
  unfolding by_match_def
  using after_spaces_stripped drop_last_stripped strip_last
  by (metis option.distinct(1))

lemma parse_None_iff: "parse_poem_chunk raw = Inr None \<longleftrightarrow> trim_lines raw = []"
  by (auto simp: parse_poem_chunk_def Let_def split: prod.splits)

text \<open>
  The function raises exactly when the chunk has a non-blank line and the removal of the
  trailing attribution leaves no line.
\<close>

lemma parse_raises_iff:
  "parse_poem_chunk raw = Inl IndexError \<longleftrightarrow>
   trim_lines raw \<noteq> [] \<and> snd (take_trailing (trim_lines raw)) = []"
  by (auto simp: parse_poem_chunk_def Let_def split: prod.splits)

text \<open>
  With a trailing attribution and a line left in front of it, the attribution line is out
  of the body and stands in for a missing header author only.
\<close>

lemma parse_with_trailing_attribution:
  assumes "trim_lines raw \<noteq> []"
    and "trailing_match (strip (last (trim_lines raw))) = Some g"
    and "pop_blank (butlast (trim_lines raw)) = hl" and "hl \<noteq> []"
    and "header hl = (t, a, n)"
  shows "parse_poem_chunk raw =
    Inr (Some \<lparr>p_title = t, p_author = (if truthy a then a else Some g),
      p_body = join_nl (dropWhile blank (drop n hl))\<rparr>)"
proof -
  have g: "g \<noteq> []" "strip g = g"
    using trailing_match_strip [OF assms(2)] by simp_all
  then have "truthy (Some (strip g))"
    by (simp add: truthy_def)
  moreover have "take_trailing (trim_lines raw) = (Some (strip g), hl)"
    using assms(2,3) by (simp add: take_trailing_def)
  ultimately show ?thesis
    using assms(1,4,5) g by (simp add: parse_poem_chunk_def)
qed

text \<open>
  The first line left for the header is never blank, so a record has an empty title only
  through the branch for the reversed format, with a blank second line.
\<close>

lemma pop_blank_prefix: "\<exists>r. ls = pop_blank ls @ r"
proof -
  have "ls = pop_blank ls @ rev (takeWhile blank (rev ls))"
    unfolding pop_blank_def by (metis rev_append rev_rev_ident takeWhile_dropWhile_id)
  then show ?thesis ..
qed

lemma hd_pop_blank: "pop_blank ls \<noteq> [] \<Longrightarrow> hd (pop_blank ls) = hd ls"
  using pop_blank_prefix [of ls] by (metis hd_append2)

lemma hd_butlast: "butlast ls \<noteq> [] \<Longrightarrow> hd (butlast ls) = hd ls"
  by (cases ls) (auto split: if_splits)

lemma trim_lines_hd: "trim_lines raw \<noteq> [] \<Longrightarrow> \<not> blank (hd (trim_lines raw))"
proof -
  assume ne: "trim_lines raw \<noteq> []"
  have d: "dropWhile blank (split_nl raw) \<noteq> []"
  proof
    assume "dropWhile blank (split_nl raw) = []"
    then have "trim_lines raw = []"
      unfolding trim_lines_def pop_blank_def by (simp only: rev.simps dropWhile.simps)
    with ne show False by contradiction
  qed
  have "hd (trim_lines raw) = hd (dropWhile blank (split_nl raw))"
    using ne unfolding trim_lines_def by (rule hd_pop_blank)
  with hd_dropWhile [OF d] show ?thesis by simp
qed

lemma take_trailing_hd:
  assumes "trim_lines raw \<noteq> []" and "take_trailing (trim_lines raw) = (ta, hl)" and "hl \<noteq> []"
  shows "strip (hl ! 0) \<noteq> []"
proof -
  have "hd hl = hd (trim_lines raw)"
  proof (cases "trailing_match (strip (last (trim_lines raw)))")
    case None
    with assms(2) show ?thesis by (simp add: take_trailing_def)
  next
    case (Some g)
    with assms(2) have hl: "hl = pop_blank (butlast (trim_lines raw))"
      by (simp add: take_trailing_def)
    with assms(3) have "hd hl = hd (butlast (trim_lines raw))"
      using hd_pop_blank by blast
    moreover have "butlast (trim_lines raw) \<noteq> []"
    proof
      assume "butlast (trim_lines raw) = []"
      then have "hl = []"
        unfolding hl pop_blank_def by (simp only: rev.simps dropWhile.simps)
      with assms(3) show False by contradiction
    qed
    ultimately show ?thesis
      by (simp add: hd_butlast)
  qed
  with trim_lines_hd [OF assms(1)] assms(3) show ?thesis
    by (simp add: blank_def hd_conv_nth)
qed

lemma empty_title_only_reversed:
  assumes "parse_poem_chunk raw = Inr (Some p)" and "p_title p = []"
  shows "\<exists>ta hl. take_trailing (trim_lines raw) = (ta, hl) \<and> 1 < length hl \<and>
    is_known_author (strip (hl ! 0)) \<and> blank (hl ! 1)"
proof -
  obtain ta hl where tt: "take_trailing (trim_lines raw) = (ta, hl)"
    by (cases "take_trailing (trim_lines raw)")
  from assms(1) tt have ne: "trim_lines raw \<noteq> []" and hl: "hl \<noteq> []"
    by (auto simp: parse_poem_chunk_def Let_def split: if_splits)
  from assms tt ne hl have t: "fst (header hl) = []"
    by (auto simp: parse_poem_chunk_def split: prod.splits)
  have first: "strip (hl ! 0) \<noteq> []"
    using take_trailing_hd [OF ne tt hl] .
  from t first have "1 < length hl \<and> is_known_author (strip (hl ! 0)) \<and> strip (hl ! 1) = []"
    by (auto simp: header_def Let_def split: if_splits option.splits)
  with tt show ?thesis
    by (auto simp: blank_def)
qed

section \<open>Properties of \<open>parse_poem_chunk\<close>\<close>

text \<open>
  C2. The claim: \<open>parse_poem_chunk\<close> returns normally for every input string, \<open>None\<close>
  exactly when the chunk is empty after trimming, and a record for every other chunk.
  The code does not: a chunk whose only non-blank line is a trailing attribution, here
  \<open>--Jane Doe\<close>, is not empty after trimming, loses its only line at line 91, and line 97
  (\<open>lines[0]\<close>) raises \<open>IndexError\<close>. The guard of line 78 is not repeated behind the
  removal.
\<close>

theorem parse_attribution_only_raises:
  "trim_lines (py ''--Jane Doe'') = [py ''--Jane Doe''] \<and>
   parse_poem_chunk (py ''--Jane Doe'') = Inl IndexError"
  by (simp add: model_defs)

text \<open>
  C3. The claim: for every chunk that is non-empty after trimming blank lines, the record
  returned has a non-empty title. The code returns an empty title when the first line is a
  known author and the second line is blank: the branch of line 118 for the reversed
  format takes the second line as the title without looking at it. This is the only way
  to an empty title (\<open>empty_title_only_reversed\<close>).
\<close>

theorem parse_known_author_blank_title:
  "trim_lines (py ''Paul Celan\<newline>\<newline>Body'') = [py ''Paul Celan'', [], py ''Body''] \<and>
   parse_poem_chunk (py ''Paul Celan\<newline>\<newline>Body'') =
     Inr (Some \<lparr>p_title = [], p_author = Some (py ''Paul Celan''), p_body = py ''Body''\<rparr>)"
  by (simp add: model_defs)

text \<open>
  Upper-case \<open>TRANSLATED BY\<close> is not the pattern of line 110, which admits either case
  for the initials \<open>T\<close> and \<open>B\<close> only: the line stays in the body.
\<close>

theorem translated_upper_case_not_skipped:
  "by_match (py ''By A'') = Some (py ''A'') \<and>
   parse_poem_chunk (py ''T\<newline>By A\<newline>TRANSLATED BY X\<newline>\<newline>Body'') =
     Inr (Some \<lparr>p_title = py ''T'', p_author = Some (py ''A''),
       p_body = py ''TRANSLATED BY X\<newline>\<newline>Body''\<rparr>)"
  by (simp add: model_defs)

text \<open>
  C4, amended. When, of the lines left for the header, the second one matches
  \<open>By <name>\<close> or \<open>by <name>\<close> and the third one begins with \<open>Translated\<close> or
  \<open>translated\<close>, spaces, \<open>By\<close> or \<open>by\<close> and a space (no other letter case), the third
  line is skipped too: the title is the first line, the author is the name of the second
  line, not the translator, and the body starts at the fourth line.
\<close>

theorem translated_by_skipped:
  assumes "trim_lines raw \<noteq> []"
    and "take_trailing (trim_lines raw) = (ta, l1 # l2 # l3 # rest)"
    and "by_match (strip l2) = Some g"
    and "translated_match (strip l3)"
  shows "parse_poem_chunk raw =
    Inr (Some \<lparr>p_title = strip l1, p_author = Some (strip g),
      p_body = join_nl (dropWhile blank rest)\<rparr>)"
proof -
  have "truthy (Some (strip g))"
    using by_match_strip [OF assms(3)] by (simp add: truthy_def)
  moreover have "header (l1 # l2 # l3 # rest) = (strip l1, Some (strip g), 3)"
    using assms(3,4) by (simp add: header_def)
  ultimately show ?thesis
    using assms(1,2) by (simp add: parse_poem_chunk_def)
qed

theorem translated_by_skipped_witness:
  "parse_poem_chunk
     (py ''from Title\<newline>By Author\<newline>translated  by X\<newline>\<newline>Line1\<newline>Line2'') =
     Inr (Some \<lparr>p_title = py ''from Title'', p_author = Some (py ''Author''),
       p_body = py ''Line1\<newline>Line2''\<rparr>)"
proof -
  let ?raw = "py ''from Title\<newline>By Author\<newline>translated  by X\<newline>\<newline>Line1\<newline>Line2''"
  have a: "trim_lines ?raw \<noteq> []"
    by (simp add: model_defs)
  have b: "take_trailing (trim_lines ?raw) =
      (None, [py ''from Title'', py ''By Author'', py ''translated  by X'', [],
        py ''Line1'', py ''Line2''])"
    by (simp add: model_defs)
  have c: "by_match (strip (py ''By Author'')) = Some (py ''Author'')"
    by (simp add: model_defs)
  have d: "translated_match (strip (py ''translated  by X''))"
    by (simp add: model_defs)
  show ?thesis
    using translated_by_skipped [OF a b c d] by (simp add: model_defs)
qed

text \<open>
  C8. The claim: for every chunk whose last non-blank line matches \<open>--<name>\<close>, the
  attribution line is removed from the body and the author returned is the header's, or
  \<open><name>\<close> when the header gives none. A chunk that is nothing but such a line has its
  attribution captured and then raises \<open>IndexError\<close> at line 97: no author is returned.
  On every other such chunk the code does what the claim says
  (\<open>parse_with_trailing_attribution\<close>).
\<close>

theorem parse_trailing_attribution_alone:
  "trailing_match (strip (last (trim_lines (py ''\<newline>--Anonymous\<newline>'')))) =
     Some (py ''Anonymous'') \<and>
   parse_poem_chunk (py ''\<newline>--Anonymous\<newline>'') = Inl IndexError"
  by (simp add: model_defs)

text \<open>
  C10. A chunk that trims to exactly one line, which, stripped, does not begin with two
  hyphens, gives a record: the title is the stripped line, the author is absent and the
  body is the empty string.
\<close>

theorem single_line_chunk:
  assumes "trim_lines raw = [l]" and "take 2 (strip l) \<noteq> [45, 45]"
  shows "parse_poem_chunk raw = Inr (Some \<lparr>p_title = strip l, p_author = None, p_body = []\<rparr>)"
  using assms
  by (simp add: parse_poem_chunk_def take_trailing_def trailing_match_def header_def truthy_def)

theorem single_line_chunk_witness:
  "trim_lines (py ''\<newline>  Ozymandias \<newline>\<newline>'') = [py ''  Ozymandias ''] \<and>
   take 2 (strip (py ''  Ozymandias '')) \<noteq> [45, 45] \<and>
   parse_poem_chunk (py ''\<newline>  Ozymandias \<newline>\<newline>'') =
     Inr (Some \<lparr>p_title = py ''Ozymandias'', p_author = None, p_body = []\<rparr>)"
proof -
  have a: "trim_lines (py ''\<newline>  Ozymandias \<newline>\<newline>'') = [py ''  Ozymandias '']"
    by (simp add: model_defs)
  have b: "take 2 (strip (py ''  Ozymandias '')) \<noteq> [45, 45]"
    by (simp add: model_defs)
  have c: "strip (py ''  Ozymandias '') = py ''Ozymandias''"
    by (simp add: model_defs)
  show ?thesis
    using single_line_chunk [OF a b] a b c by simp
qed



section \<open>Properties of \<open>load_author_overrides\<close>\<close>

text \<open>
  The \<open>except\<close> clause of line 180 names \<open>FileNotFoundError\<close> and
  \<open>json.JSONDecodeError\<close>. A file that may not be read raises \<open>PermissionError\<close>, contents
  that cannot be decoded raise \<open>UnicodeDecodeError\<close>, and a JSON value that is not an object
  has no \<open>get\<close>: none of them is caught.
\<close>

theorem load_author_overrides_uncaught:
  "load_author_overrides (Raises PermissionError :: int store) = Inl PermissionError \<and>
   load_author_overrides (Raises UnicodeDecodeError :: int store) = Inl UnicodeDecodeError \<and>
   load_author_overrides (Loads (JArray []) :: int store) = Inl AttributeError"
  by (simp add: load_author_overrides_def caught_def get_overrides_def)

text \<open>
  C5, amended. \<open>load_author_overrides\<close> returns in these states of the store and in no
  other: the empty mapping when the file is missing (\<open>FileNotFoundError\<close>) and when
  \<open>json.load\<close> rejects its text (\<open>json.JSONDecodeError\<close>); for a JSON object, the object's
  \<open>overrides\<close> member, and the empty mapping when it has none.
\<close>

theorem load_author_overrides_returns:
  "load_author_overrides st = Inr m \<longleftrightarrow>
     (st = Raises FileNotFoundError \<and> m = JObject []) \<or>
     (st = Raises JSONDecodeError \<and> m = JObject []) \<or>
     (\<exists>members. st = Loads (JObject members) \<and>
        m = (case map_of (rev members) (py ''overrides'') of
               Some v \<Rightarrow> v | None \<Rightarrow> JObject []))"
proof (cases st)
  case (Raises e)
  then show ?thesis
    by (auto simp: load_author_overrides_def caught_def)
next
  case (Loads data)
  then show ?thesis
    by (cases data)
      (auto simp: load_author_overrides_def caught_def get_overrides_def split: option.splits)
qed

theorem load_author_overrides_returns_witness:
  "load_author_overrides
     (Loads (JObject [(py ''overrides'', JObject [(py ''ozymandias'', JString (py ''Shelley''))])])
       :: int store) =
   Inr (JObject [(py ''ozymandias'', JString (py ''Shelley''))]) \<and>
   load_author_overrides (Raises FileNotFoundError :: int store) = Inr (JObject []) \<and>
   load_author_overrides (Raises JSONDecodeError :: int store) = Inr (JObject []) \<and>
   load_author_overrides (Loads (JObject [(py ''version'', JNumber 1)]) :: int store) =
     Inr (JObject [])"
proof -
  have a: "load_author_overrides
     (Loads (JObject [(py ''overrides'', JObject [(py ''ozymandias'', JString (py ''Shelley''))])])
       :: int store) =
   Inr (JObject [(py ''ozymandias'', JString (py ''Shelley''))])"
    using load_author_overrides_returns
      [of "Loads (JObject [(py ''overrides'', JObject [(py ''ozymandias'', JString (py ''Shelley''))])])"
        "JObject [(py ''ozymandias'', JString (py ''Shelley''))] :: int json"]
    by (simp add: py_def)
  have b: "load_author_overrides (Raises FileNotFoundError :: int store) = Inr (JObject [])"
    using load_author_overrides_returns [of "Raises FileNotFoundError" "JObject [] :: int json"]
    by simp
  have c: "load_author_overrides (Raises JSONDecodeError :: int store) = Inr (JObject [])"
    using load_author_overrides_returns [of "Raises JSONDecodeError" "JObject [] :: int json"]
    by simp
  have d: "load_author_overrides (Loads (JObject [(py ''version'', JNumber 1)]) :: int store) =
     Inr (JObject [])"
    using load_author_overrides_returns
      [of "Loads (JObject [(py ''version'', JNumber 1)])" "JObject [] :: int json"]
    by (simp add: py_def)
  from a b c d show ?thesis by simp
qed

section \<open>Properties of \<open>split_poems\<close>\<close>

text \<open>
  The specification's split gives one group more than the document has separator lines.
\<close>

lemma spec_split_length:
  "length (spec_split cur ls) = Suc (length (filter spec_delimiter_line ls))"
  by (induction ls arbitrary: cur) auto

lemma spec_split_count:
  "length (spec_split [] (split_nl text)) = spec_delimiter_lines text + 1"
  by (simp add: spec_split_length spec_delimiter_lines_def)

text \<open>
  C6. The claim: a document with \<open>N\<close> separator lines and no trailing attribution gives
  \<open>N + 1\<close> chunks less the empty ones. The code does not on two separator lines in a row:
  the match on the first one takes the newline behind it (\<open>\n?\<close>), which the pattern needs
  in front of the second. The document below has two separator lines and no attribution,
  and the three chunks of the claim are \<open>a\<close> and two empty ones; \<open>split_poems\<close> returns
  two chunks, and the second one is the separator line itself.
\<close>

theorem consecutive_separators_not_split:
  "spec_delimiter_lines (py ''a\<newline>____\<newline>____'') = 2 \<and>
   spec_split_poems (py ''a\<newline>____\<newline>____'') = [py ''a''] \<and>
   re_split [] (py ''a\<newline>____\<newline>____'') = [py ''a'', py ''____''] \<and>
   split_on_trailing_author (py ''a'') = [py ''a''] \<and>
   split_on_trailing_author (py ''____'') = [py ''____''] \<and>
   split_poems (py ''a\<newline>____\<newline>____'') = [py ''a'', py ''____'']"
  by (simp add: model_defs)

section \<open>Properties of \<open>fetch_and_parse\<close>\<close>

lemma assemble_overrides:
  "assemble nfkd ov i chunks
     (map (\<lambda>r. case ov (slug r) of Some a \<Rightarrow> r\<lparr>author := Some a\<rparr> | None \<Rightarrow> r) poems) =
   map_sum id (map (\<lambda>r. case ov (slug r) of Some a \<Rightarrow> r\<lparr>author := Some a\<rparr> | None \<Rightarrow> r))
     (assemble nfkd Map.empty i chunks poems)"
proof (induction chunks arbitrary: i poems)
  case Nil
  show ?case by simp
next
  case (Cons chunk chunks)
  show ?case
  proof (cases "parse_poem_chunk chunk")
    case (Inl e)
    then show ?thesis by simp
  next
    case (Inr r)
    show ?thesis
    proof (cases r)
      case None
      with Inr Cons.IH show ?thesis by simp
    next
      case (Some p)
      let ?s = "slugify nfkd (p_title p)"
      let ?f = "\<lambda>r. case ov (slug r) of Some a \<Rightarrow> r\<lparr>author := Some a\<rparr> | None \<Rightarrow> r"
      let ?r0 = "\<lparr>index = i + 1, title = p_title p, author = p_author p, slug = ?s,
        body = p_body p\<rparr>"
      have "map ?f poems @
          [\<lparr>index = i + 1, title = p_title p,
            author = (case ov ?s of Some a \<Rightarrow> Some a | None \<Rightarrow> p_author p), slug = ?s,
            body = p_body p\<rparr>] = map ?f (poems @ [?r0])"
        by (simp split: option.splits)
      with Inr Some Cons.IH [of "i + 1" "poems @ [?r0]"] show ?thesis
        by (simp add: Let_def)
    qed
  qed
qed

text \<open>
  The records assembled with an override mapping are the records assembled with the empty
  mapping, in the same order, where a record whose slug is a key of the mapping has the
  mapped value as its author and every other record is the same record.
\<close>

lemma overrides_relate_runs:
  "fetch_and_parse nfkd text ov =
   map_sum id (map (\<lambda>r. case ov (slug r) of Some a \<Rightarrow> r\<lparr>author := Some a\<rparr> | None \<Rightarrow> r))
     (fetch_and_parse nfkd text Map.empty)"
  unfolding fetch_and_parse_def using assemble_overrides [of nfkd ov 0 _ "[]"] by simp

lemma strip_Nil_iff: "strip s = [] \<longleftrightarrow> (\<forall>c\<in>set s. is_space c)"
proof
  assume "strip s = []"
  then have all: "\<forall>c\<in>set (rstrip s). is_space c"
    by (simp add: strip_def dropWhile_eq_Nil_conv)
  have "rstrip s = []"
  proof (rule ccontr)
    assume ne: "rstrip s \<noteq> []"
    then have "last (rstrip s) \<in> set (rstrip s)" by simp
    with all rstrip_last [OF ne] show False by blast
  qed
  then show "\<forall>c\<in>set s. is_space c"
    by (simp add: rstrip_def dropWhile_eq_Nil_conv)
next
  assume "\<forall>c\<in>set s. is_space c"
  then have "dropWhile is_space (rev s) = []"
    by (simp add: dropWhile_eq_Nil_conv)
  then have "rstrip s = []"
    unfolding rstrip_def by (simp only: rev.simps)
  then show "strip s = []"
    unfolding strip_def by (simp only: dropWhile.simps)
qed

lemma strip_strip: "strip (strip s) = strip s"
proof (cases "strip s = []")
  case True
  have "strip [] = []"
    by (simp add: strip_def rstrip_def)
  with True show ?thesis by simp
next
  case False
  then show ?thesis by (simp add: strip_id strip_hd strip_last)
qed

lemma split_nl_covers: "x \<in> set s \<Longrightarrow> x \<noteq> 10 \<Longrightarrow> \<exists>l\<in>set (split_nl s). x \<in> set l"
proof (induction s)
  case Nil
  then show ?case by simp
next
  case (Cons c cs)
  then show ?case
    by (cases "split_nl cs") (auto split: if_splits)
qed

lemma mem_dropWhile: "l \<in> set ls \<Longrightarrow> \<not> P l \<Longrightarrow> l \<in> set (dropWhile P ls)"
  by (induction ls) auto

lemma trim_lines_nonblank:
  assumes "strip c \<noteq> []"
  shows "trim_lines c \<noteq> []"
proof -
  from assms obtain x where x: "x \<in> set c" "\<not> is_space x"
    by (auto simp: strip_Nil_iff)
  then have "x \<noteq> 10"
    by (auto simp: is_space_def)
  with x obtain l where l: "l \<in> set (split_nl c)" "x \<in> set l"
    using split_nl_covers by blast
  with x have nb: "\<not> blank l"
    by (auto simp: blank_def strip_Nil_iff)
  with l have "l \<in> set (dropWhile blank (split_nl c))"
    by (simp add: mem_dropWhile)
  then have "l \<in> set (rev (dropWhile blank (split_nl c)))"
    by simp
  then have "l \<in> set (dropWhile blank (rev (dropWhile blank (split_nl c))))"
    using nb by (rule mem_dropWhile)
  then have "dropWhile blank (rev (dropWhile blank (split_nl c))) \<noteq> []"
    by (cases "dropWhile blank (rev (dropWhile blank (split_nl c)))") simp_all
  then show ?thesis
    unfolding trim_lines_def pop_blank_def by (simp only: rev_is_Nil_conv not_False_eq_True)
qed

lemma primary_chunks_nonblank: "c \<in> set (primary_chunks text) \<Longrightarrow> strip c \<noteq> []"
  by (auto simp: primary_chunks_def strip_strip)

lemma split_on_trailing_author_nonblank:
  "strip chunk \<noteq> [] \<Longrightarrow> c \<in> set (split_on_trailing_author chunk) \<Longrightarrow> strip c \<noteq> []"
proof (induction chunk rule: split_on_trailing_author.induct)
  case (1 chunk)
  show ?case
  proof (cases "search_attribution 0 True chunk")
    case None
    with "1.prems" show ?thesis by (simp add: split_on_trailing_author.simps [of chunk])
  next
    case (Some n)
    let ?first = "strip (take n chunk)" and ?rest = "strip (drop n chunk)"
    show ?thesis
    proof (cases "?first \<noteq> [] \<and> ?rest \<noteq> []")
      case False
      with Some "1.prems" show ?thesis
        by (auto simp: Let_def split_on_trailing_author.simps [of chunk])
    next
      case True
      with Some "1.prems"(2) have "c = ?first \<or> c \<in> set (split_on_trailing_author ?rest)"
        by (auto simp: Let_def split_on_trailing_author.simps [of chunk])
      then show ?thesis
      proof
        assume "c = ?first"
        with True show ?thesis by (simp add: strip_strip)
      next
        assume "c \<in> set (split_on_trailing_author ?rest)"
        moreover have "strip ?rest \<noteq> []"
          using True by (simp add: strip_strip)
        ultimately show ?thesis
          using "1.IH" [OF Some refl refl True] by simp
      qed
    qed
  qed
qed

lemma split_poems_nonblank: "c \<in> set (split_poems text) \<Longrightarrow> strip c \<noteq> []"
  unfolding split_poems_def
  using primary_chunks_nonblank split_on_trailing_author_nonblank by auto

lemma assemble_indices:
  assumes "\<forall>c\<in>set chunks. parse_poem_chunk c \<noteq> Inr None"
    and "assemble nfkd ov i chunks poems = Inr out"
  shows "map index out = map index poems @ [Suc i..<Suc i + length chunks]"
  using assms
proof (induction chunks arbitrary: i poems)
  case Nil
  then show ?case by simp
next
  case (Cons chunk chunks)
  from Cons.prems obtain p where p: "parse_poem_chunk chunk = Inr (Some p)"
    by (cases "parse_poem_chunk chunk") auto
  let ?r = "\<lparr>index = i + 1, title = p_title p,
    author = (case ov (slugify nfkd (p_title p)) of Some a \<Rightarrow> Some a | None \<Rightarrow> p_author p),
    slug = slugify nfkd (p_title p), body = p_body p\<rparr>"
  from Cons.prems p have "assemble nfkd ov (Suc i) chunks (poems @ [?r]) = Inr out"
    by (simp add: Let_def)
  moreover from Cons.prems have "\<forall>c\<in>set chunks. parse_poem_chunk c \<noteq> Inr None"
    by simp
  ultimately have "map index out = map index (poems @ [?r]) @ [Suc (Suc i)..<Suc (Suc i) + length chunks]"
    by (rule Cons.IH [rotated])
  moreover have "[Suc i..<Suc i + length (chunk # chunks)] =
      Suc i # [Suc (Suc i)..<Suc (Suc i) + length chunks]"
    using upt_conv_Cons [of "Suc i" "Suc i + length (chunk # chunks)"] by simp
  ultimately show ?case
    by (simp del: upt_Suc)
qed

text \<open>
  C1. Whenever \<open>fetch_and_parse\<close> returns for a document and an override mapping, the
  index values of its records are 1, 2, ..., n in the order of the list. The index is the
  position of the chunk in \<open>enumerate(chunks)\<close>; it is the count of emitted records
  because \<open>split_poems\<close> never yields a chunk that \<open>parse_poem_chunk\<close> skips: the blank
  pieces of the document are dropped before the loop, so every chunk gives a record.
\<close>

theorem indices_contiguous:
  assumes "fetch_and_parse nfkd text ov = Inr poems"
  shows "map index poems = [1..<Suc (length poems)] \<and> length poems = length (split_poems text)"
proof -
  have "\<forall>c\<in>set (split_poems text). parse_poem_chunk c \<noteq> Inr None"
    using split_poems_nonblank trim_lines_nonblank by (auto simp: parse_None_iff)
  then have m: "map index poems = [Suc 0..<Suc 0 + length (split_poems text)]"
    using assemble_indices [of "split_poems text" nfkd ov 0 "[]" poems] assms
    by (simp add: fetch_and_parse_def)
  from arg_cong [OF m, of length] have "length poems = length (split_poems text)"
    by (simp del: upt_Suc)
  with m show ?thesis by (simp del: upt_Suc)
qed

theorem indices_contiguous_witness:
  "map index
     [\<lparr>index = 1, title = py ''A'', author = Some (py ''B''), slug = py ''a'', body = py ''x''\<rparr>,
      \<lparr>index = 2, title = py ''C'', author = None, slug = py ''c'', body = py ''y''\<rparr>] = [1, 2] \<and>
   length (split_poems (py ''A\<newline>by B\<newline>x\<newline>____\<newline>\<newline>____\<newline>C\<newline>y'')) = 2"
proof -
  have "fetch_and_parse (\<lambda>s. s) (py ''A\<newline>by B\<newline>x\<newline>____\<newline>\<newline>____\<newline>C\<newline>y'') Map.empty =
    Inr [\<lparr>index = 1, title = py ''A'', author = Some (py ''B''), slug = py ''a'', body = py ''x''\<rparr>,
      \<lparr>index = 2, title = py ''C'', author = None, slug = py ''c'', body = py ''y''\<rparr>]"
    by (simp add: model_defs)
  from indices_contiguous [OF this] show ?thesis
    by (simp add: upt_rec)
qed

text \<open>
  The loop by itself numbers by position: on a list of chunks with a blank one, which
  \<open>split_poems\<close> cannot produce, the skipped chunk takes a number.
\<close>

lemma assemble_counts_a_skipped_chunk:
  "map index (projr (assemble (\<lambda>s. s) Map.empty 0 [py ''A'', [], py ''B''] [])) = [1, 3]"
  by (simp add: model_defs)

lemma assemble_prefix:
  "assemble nfkd ov i chunks acc = Inr out \<Longrightarrow> take (length acc) out = acc"
proof (induction chunks arbitrary: i acc)
  case Nil
  then show ?case by simp
next
  case (Cons chunk chunks)
  show ?case
  proof (cases "parse_poem_chunk chunk")
    case (Inl e)
    with Cons.prems show ?thesis by simp
  next
    case (Inr r)
    show ?thesis
    proof (cases r)
      case None
      with Inr Cons show ?thesis by simp
    next
      case (Some p)
      let ?r = "\<lparr>index = i + 1, title = p_title p,
        author = (case ov (slugify nfkd (p_title p)) of Some a \<Rightarrow> Some a | None \<Rightarrow> p_author p),
        slug = slugify nfkd (p_title p), body = p_body p\<rparr>"
      from Cons.prems Inr Some have "assemble nfkd ov (i + 1) chunks (acc @ [?r]) = Inr out"
        by (simp add: Let_def)
      then have "take (length (acc @ [?r])) out = acc @ [?r]"
        by (rule Cons.IH)
      then have "take (length acc) (take (length (acc @ [?r])) out) = take (length acc) (acc @ [?r])"
        by simp
      then show ?thesis
        by (simp add: min_def)
    qed
  qed
qed

lemma assemble_records:
  assumes "\<forall>c\<in>set chunks. parse_poem_chunk c \<noteq> Inr None"
    and "assemble nfkd ov i chunks acc = Inr out"
  shows "length out = length acc + length chunks \<and>
    (\<forall>k<length chunks. \<exists>p. parse_poem_chunk (chunks ! k) = Inr (Some p) \<and>
       out ! (length acc + k) =
         \<lparr>index = i + k + 1, title = p_title p,
          author = (case ov (slugify nfkd (p_title p)) of Some a \<Rightarrow> Some a | None \<Rightarrow> p_author p),
          slug = slugify nfkd (p_title p), body = p_body p\<rparr>)"
  using assms
proof (induction chunks arbitrary: i acc)
  case Nil
  then show ?case by simp
next
  case (Cons chunk chunks)
  from Cons.prems obtain p where p: "parse_poem_chunk chunk = Inr (Some p)"
    by (cases "parse_poem_chunk chunk") auto
  let ?r = "\<lparr>index = i + 1, title = p_title p,
    author = (case ov (slugify nfkd (p_title p)) of Some a \<Rightarrow> Some a | None \<Rightarrow> p_author p),
    slug = slugify nfkd (p_title p), body = p_body p\<rparr>"
  from Cons.prems p have run: "assemble nfkd ov (i + 1) chunks (acc @ [?r]) = Inr out"
    by (simp add: Let_def)
  from Cons.prems have rest: "\<forall>c\<in>set chunks. parse_poem_chunk c \<noteq> Inr None"
    by simp
  note ih = Cons.IH [OF rest run]
  have len: "length out = length acc + length (chunk # chunks)"
    using ih by simp
  have "take (length (acc @ [?r])) out = acc @ [?r]"
    using run by (rule assemble_prefix)
  then have "take (length (acc @ [?r])) out ! length acc = (acc @ [?r]) ! length acc"
    by simp
  then have first: "out ! length acc = ?r"
    by simp
  have "\<exists>q. parse_poem_chunk ((chunk # chunks) ! k) = Inr (Some q) \<and>
       out ! (length acc + k) =
         \<lparr>index = i + k + 1, title = p_title q,
          author = (case ov (slugify nfkd (p_title q)) of Some a \<Rightarrow> Some a | None \<Rightarrow> p_author q),
          slug = slugify nfkd (p_title q), body = p_body q\<rparr>"
    if k: "k < length (chunk # chunks)" for k
  proof (cases k)
    case 0
    with p first show ?thesis by simp
  next
    case (Suc j)
    with k have "j < length chunks" by simp
    with ih obtain q where "parse_poem_chunk (chunks ! j) = Inr (Some q)"
      and "out ! (length (acc @ [?r]) + j) =
         \<lparr>index = (i + 1) + j + 1, title = p_title q,
          author = (case ov (slugify nfkd (p_title q)) of Some a \<Rightarrow> Some a | None \<Rightarrow> p_author q),
          slug = slugify nfkd (p_title q), body = p_body q\<rparr>"
      by blast
    with Suc show ?thesis by simp
  qed
  with len show ?case by blast
qed

lemma assemble_returns:
  "\<forall>c\<in>set chunks. \<exists>p. parse_poem_chunk c = Inr (Some p) \<Longrightarrow>
   \<exists>out. assemble nfkd ov i chunks acc = Inr out"
proof (induction chunks arbitrary: i acc)
  case Nil
  show ?case by simp
next
  case (Cons chunk chunks)
  from Cons.prems obtain p where "parse_poem_chunk chunk = Inr (Some p)"
    by auto
  moreover from Cons.prems have "\<forall>c\<in>set chunks. \<exists>p. parse_poem_chunk c = Inr (Some p)"
    by simp
  ultimately show ?case
    using Cons.IH by (simp add: Let_def)
qed

text \<open>
  C9. \<open>fetch_and_parse\<close> returns a list exactly when the list is, chunk by chunk, the
  record of the parsed chunk: the index is the position plus one, title and body are those
  of the parsed record, the slug is the slug of its title, and the author is the mapped
  value when the override mapping contains the slug and the parsed author when it does
  not. So the override step replaces the author exactly for the slugs of the mapping and
  leaves title, body, slug and index as they are.
\<close>

theorem override_step:
  "fetch_and_parse nfkd text ov = Inr poems \<longleftrightarrow>
   length poems = length (split_poems text) \<and>
   (\<forall>k<length poems. \<exists>p. parse_poem_chunk (split_poems text ! k) = Inr (Some p) \<and>
      poems ! k =
        \<lparr>index = k + 1, title = p_title p,
         author = (case ov (slugify nfkd (p_title p)) of Some a \<Rightarrow> Some a | None \<Rightarrow> p_author p),
         slug = slugify nfkd (p_title p), body = p_body p\<rparr>)"
  (is "?run \<longleftrightarrow> ?len \<and> ?recs poems")
proof
  have skip: "\<forall>c\<in>set (split_poems text). parse_poem_chunk c \<noteq> Inr None"
    using split_poems_nonblank trim_lines_nonblank by (auto simp: parse_None_iff)
  {
    fix out
    assume "fetch_and_parse nfkd text ov = Inr out"
    with assemble_records [OF skip, of nfkd ov 0 "[]" out]
    have "length out = length (split_poems text) \<and> ?recs out"
      by (simp add: fetch_and_parse_def)
  }
  note forward = this
  show "?len \<and> ?recs poems" if ?run
    using forward [OF that] .
  show ?run if right: "?len \<and> ?recs poems"
  proof -
    have "\<forall>c\<in>set (split_poems text). \<exists>p. parse_poem_chunk c = Inr (Some p)"
    proof
      fix c
      assume "c \<in> set (split_poems text)"
      then obtain k where "k < length (split_poems text)" and "c = split_poems text ! k"
        by (auto simp: in_set_conv_nth)
      with right show "\<exists>p. parse_poem_chunk c = Inr (Some p)"
        by auto
    qed
    then obtain out where out: "fetch_and_parse nfkd text ov = Inr out"
      unfolding fetch_and_parse_def using assemble_returns by blast
    from forward [OF out] have len: "length out = length (split_poems text)"
      and recs: "?recs out"
      by simp_all
    have "out = poems"
    proof (rule nth_equalityI)
      show "length out = length poems"
        using len right by simp
    next
      fix k
      assume k: "k < length out"
      with recs obtain p where p: "parse_poem_chunk (split_poems text ! k) = Inr (Some p)"
        and o: "out ! k =
          \<lparr>index = k + 1, title = p_title p,
           author = (case ov (slugify nfkd (p_title p)) of Some a \<Rightarrow> Some a | None \<Rightarrow> p_author p),
           slug = slugify nfkd (p_title p), body = p_body p\<rparr>"
        by blast
      from k len right have "k < length poems"
        by simp
      with right obtain q where q: "parse_poem_chunk (split_poems text ! k) = Inr (Some q)"
        and r: "poems ! k =
          \<lparr>index = k + 1, title = p_title q,
           author = (case ov (slugify nfkd (p_title q)) of Some a \<Rightarrow> Some a | None \<Rightarrow> p_author q),
           slug = slugify nfkd (p_title q), body = p_body q\<rparr>"
        by blast
      from p q have pq: "p = q"
        by simp
      show "out ! k = poems ! k"
        unfolding o r pq ..
    qed
    with out show ?run by simp
  qed
qed

theorem override_step_witness:
  "fetch_and_parse (\<lambda>s. s) (py ''A\<newline>by B\<newline>x\<newline>____\<newline>C\<newline>y'') [py ''c'' \<mapsto> py ''Z''] =
     Inr [\<lparr>index = 1, title = py ''A'', author = Some (py ''B''), slug = py ''a'', body = py ''x''\<rparr>,
          \<lparr>index = 2, title = py ''C'', author = Some (py ''Z''), slug = py ''c'', body = py ''y''\<rparr>] \<and>
   length (split_poems (py ''A\<newline>by B\<newline>x\<newline>____\<newline>C\<newline>y'')) = 2 \<and>
   parse_poem_chunk (split_poems (py ''A\<newline>by B\<newline>x\<newline>____\<newline>C\<newline>y'') ! 0) =
     Inr (Some \<lparr>p_title = py ''A'', p_author = Some (py ''B''), p_body = py ''x''\<rparr>) \<and>
   parse_poem_chunk (split_poems (py ''A\<newline>by B\<newline>x\<newline>____\<newline>C\<newline>y'') ! 1) =
     Inr (Some \<lparr>p_title = py ''C'', p_author = None, p_body = py ''y''\<rparr>)"
proof -
  let ?t = "py ''A\<newline>by B\<newline>x\<newline>____\<newline>C\<newline>y''"
  have chunks: "split_poems ?t = [py ''A\<newline>by B\<newline>x'', py ''C\<newline>y'']"
    by (simp add: model_defs)
  have run: "fetch_and_parse (\<lambda>s. s) ?t [py ''c'' \<mapsto> py ''Z''] =
     Inr [\<lparr>index = 1, title = py ''A'', author = Some (py ''B''), slug = py ''a'', body = py ''x''\<rparr>,
          \<lparr>index = 2, title = py ''C'', author = Some (py ''Z''), slug = py ''c'', body = py ''y''\<rparr>]"
    by (simp add: model_defs)
  have len: "length (split_poems ?t) = 2"
    using override_step [THEN iffD1, OF run] by simp
  have p0: "parse_poem_chunk (split_poems ?t ! 0) =
     Inr (Some \<lparr>p_title = py ''A'', p_author = Some (py ''B''), p_body = py ''x''\<rparr>)"
    unfolding chunks by (simp add: model_defs)
  have p1: "parse_poem_chunk (split_poems ?t ! 1) =
     Inr (Some \<lparr>p_title = py ''C'', p_author = None, p_body = py ''y''\<rparr>)"
    unfolding chunks by (simp add: model_defs)
  from run len p0 p1 show ?thesis by simp
qed

section \<open>Properties of \<open>slugify\<close>\<close>

lemma trim_hd:
  "dropWhile P (rev (dropWhile P (rev s))) \<noteq> [] \<Longrightarrow>
   \<not> P (hd (dropWhile P (rev (dropWhile P (rev s)))))"
  by (rule hd_dropWhile)

lemma trim_last:
  assumes "dropWhile P (rev (dropWhile P (rev s))) \<noteq> []"
  shows "\<not> P (last (dropWhile P (rev (dropWhile P (rev s)))))"
proof -
  have ne: "dropWhile P (rev s) \<noteq> []"
  proof
    assume "dropWhile P (rev s) = []"
    then have "dropWhile P (rev (dropWhile P (rev s))) = []"
      by (simp only: rev.simps dropWhile.simps)
    with assms show False by contradiction
  qed
  have "last (dropWhile P (rev (dropWhile P (rev s)))) = last (rev (dropWhile P (rev s)))"
    using assms by (rule last_dropWhile)
  also have "\<dots> = hd (dropWhile P (rev s))"
    by (simp add: last_rev)
  finally show ?thesis
    using hd_dropWhile [OF ne] by simp
qed

lemma trim_id:
  "s \<noteq> [] \<Longrightarrow> \<not> P (hd s) \<Longrightarrow> \<not> P (last s) \<Longrightarrow> dropWhile P (rev (dropWhile P (rev s))) = s"
  by (simp add: dropWhile_id hd_rev)

lemma slug_char_not_hyphen: "slug_char c \<Longrightarrow> c \<noteq> 45"
  by (auto simp: slug_char_def)

lemma double_hyphen_Cons:
  "double_hyphen (a # s) \<longleftrightarrow> (a = 45 \<and> take 1 s = [45]) \<or> double_hyphen s"
  by (cases s) auto

lemma double_hyphen_iff: "double_hyphen s \<longleftrightarrow> (\<exists>xs ys. s = xs @ 45 # 45 # ys)"
proof (induction s)
  case Nil
  show ?case by simp
next
  case (Cons a s)
  show ?case
  proof
    assume "double_hyphen (a # s)"
    then consider "a = 45" "take 1 s = [45]" | "double_hyphen s"
      by (auto simp: double_hyphen_Cons)
    then show "\<exists>xs ys. a # s = xs @ 45 # 45 # ys"
    proof cases
      case 1
      then obtain t where "s = 45 # t"
        by (cases s) auto
      with 1 have "a # s = [] @ 45 # 45 # t" by simp
      then show ?thesis by blast
    next
      case 2
      with Cons.IH obtain xs ys where "s = xs @ 45 # 45 # ys" by blast
      then have "a # s = (a # xs) @ 45 # 45 # ys" by simp
      then show ?thesis by blast
    qed
  next
    assume "\<exists>xs ys. a # s = xs @ 45 # 45 # ys"
    then obtain xs ys where eq: "a # s = xs @ 45 # 45 # ys" by blast
    show "double_hyphen (a # s)"
    proof (cases xs)
      case Nil
      with eq show ?thesis by auto
    next
      case (Cons x xs')
      with eq have "s = xs' @ 45 # 45 # ys" by simp
      with Cons.IH have "double_hyphen s" by blast
      then show ?thesis by (simp add: double_hyphen_Cons)
    qed
  qed
qed

lemma double_hyphen_rev: "double_hyphen (rev s) \<longleftrightarrow> double_hyphen s"
proof -
  have "double_hyphen (rev t)" if "double_hyphen t" for t
  proof -
    from that obtain xs ys where "t = xs @ 45 # 45 # ys"
      by (auto simp: double_hyphen_iff)
    then have "rev t = rev ys @ 45 # 45 # rev xs" by simp
    then show ?thesis unfolding double_hyphen_iff by blast
  qed
  from this [of s] this [of "rev s"] show ?thesis by auto
qed

lemma double_hyphen_dropWhile: "double_hyphen (dropWhile P s) \<Longrightarrow> double_hyphen s"
proof -
  assume "double_hyphen (dropWhile P s)"
  then obtain xs ys where "dropWhile P s = xs @ 45 # 45 # ys"
    by (auto simp: double_hyphen_iff)
  then have "s = (takeWhile P s @ xs) @ 45 # 45 # ys"
    by (metis append.assoc takeWhile_dropWhile_id)
  then show ?thesis unfolding double_hyphen_iff by blast
qed

lemma double_hyphen_strip_hyphens: "double_hyphen (strip_hyphens s) \<Longrightarrow> double_hyphen s"
  unfolding strip_hyphens_def
  using double_hyphen_dropWhile double_hyphen_rev by blast

lemma sub_runs_chars: "c \<in> set (sub_runs b s) \<Longrightarrow> slug_char c \<or> c = 45"
  by (induction s arbitrary: b) (auto split: if_splits)

lemma sub_runs_no_double:
  "\<not> double_hyphen (sub_runs b s) \<and> (b \<longrightarrow> take 1 (sub_runs b s) \<noteq> [45])"
proof (induction s arbitrary: b)
  case Nil
  show ?case by simp
next
  case (Cons c s)
  show ?case
  proof (cases "slug_char c")
    case True
    then show ?thesis
      using Cons.IH [of False] by (simp add: double_hyphen_Cons slug_char_not_hyphen)
  next
    case False
    then show ?thesis
      using Cons.IH [of True] by (simp add: double_hyphen_Cons)
  qed
qed

lemma sub_runs_id:
  "\<forall>c\<in>set s. slug_char c \<or> c = 45 \<Longrightarrow> \<not> double_hyphen s \<Longrightarrow> (b \<longrightarrow> take 1 s \<noteq> [45]) \<Longrightarrow>
   sub_runs b s = s"
proof (induction s arbitrary: b)
  case Nil
  show ?case by simp
next
  case (Cons c s)
  show ?case
  proof (cases "slug_char c")
    case True
    moreover have "sub_runs False s = s"
      using Cons.prems by (intro Cons.IH) (auto simp: double_hyphen_Cons)
    ultimately show ?thesis by simp
  next
    case False
    with Cons.prems have c: "c = 45" and b: "\<not> b"
      by auto
    have "sub_runs True s = s"
      using Cons.prems c by (intro Cons.IH) (auto simp: double_hyphen_Cons)
    with False b c show ?thesis by simp
  qed
qed

lemma strip_hyphens_subset: "c \<in> set (strip_hyphens s) \<Longrightarrow> c \<in> set s"
proof -
  assume "c \<in> set (strip_hyphens s)"
  then have "c \<in> set (rev (dropWhile (\<lambda>c. c = 45) (rev s)))"
    unfolding strip_hyphens_def by (rule set_dropWhileD)
  then have "c \<in> set (dropWhile (\<lambda>c. c = 45) (rev s))"
    by simp
  then have "c \<in> set (rev s)"
    by (rule set_dropWhileD)
  then show ?thesis by simp
qed

lemma slugify_chars: "c \<in> set (slugify nfkd t) \<Longrightarrow> slug_char c \<or> c = 45"
  unfolding slugify_def using strip_hyphens_subset sub_runs_chars by blast

lemma slugify_no_double: "\<not> double_hyphen (slugify nfkd t)"
  unfolding slugify_def using double_hyphen_strip_hyphens sub_runs_no_double by blast

lemma slugify_ends:
  "slugify nfkd t \<noteq> [] \<Longrightarrow> hd (slugify nfkd t) \<noteq> 45 \<and> last (slugify nfkd t) \<noteq> 45"
  unfolding slugify_def strip_hyphens_def
  using trim_hd [of "\<lambda>c. c = 45"] trim_last [of "\<lambda>c. c = 45"] by blast

lemma slug_fixed_point:
  assumes chars: "\<forall>c\<in>set z. slug_char c \<or> c = 45"
    and nd: "\<not> double_hyphen z"
    and ends: "z \<noteq> [] \<Longrightarrow> hd z \<noteq> 45 \<and> last z \<noteq> 45"
    and nfkd: "\<forall>s. (\<forall>c\<in>set s. c < 128) \<longrightarrow> nfkd s = s"
  shows "slugify nfkd z = z"
proof -
  have lt: "\<forall>c\<in>set z. c < 128"
    using chars by (auto simp: slug_char_def)
  then have "nfkd z = z"
    using nfkd by blast
  moreover have "ascii_ignore z = z"
    using lt by (simp add: ascii_ignore_def)
  moreover have "map lower z = z"
    using chars by (intro map_idI) (auto simp: lower_def slug_char_def)
  moreover have "sub_runs False z = z"
    using chars nd by (intro sub_runs_id) auto
  moreover have "strip_hyphens z = z"
  proof (cases "z = []")
    case True
    then show ?thesis by (simp add: strip_hyphens_def)
  next
    case False
    with ends show ?thesis
      unfolding strip_hyphens_def by (intro trim_id) auto
  qed
  ultimately show ?thesis
    by (simp add: slugify_def)
qed

text \<open>
  C7. For a title of ASCII letters, digits and spaces, the slug holds only lower-case ASCII
  letters, digits and hyphens (so no upper-case letter and no whitespace), does not begin
  or end with a hyphen, has no two hyphens side by side, and is a fixed point of
  \<open>slugify\<close>. The normalisation is the parameter \<open>nfkd\<close>; what is used of it is that NFKD
  leaves ASCII text as it is.
\<close>

theorem slugify_shape_and_fixed_point:
  assumes "\<forall>c\<in>set text. ascii_letter c \<or> ascii_digit c \<or> c = 32"
    and "\<forall>s. (\<forall>c\<in>set s. c < 128) \<longrightarrow> nfkd s = s"
  shows "(\<forall>c\<in>set (slugify nfkd text).
            (slug_char c \<or> c = 45) \<and> \<not> ascii_upper c \<and> \<not> is_space c) \<and>
         take 1 (slugify nfkd text) \<noteq> [45] \<and>
         take 1 (rev (slugify nfkd text)) \<noteq> [45] \<and>
         \<not> double_hyphen (slugify nfkd text) \<and>
         slugify nfkd (slugify nfkd text) = slugify nfkd text"
proof -
  let ?z = "slugify nfkd text"
  have chars: "\<forall>c\<in>set ?z. slug_char c \<or> c = 45"
    using slugify_chars by blast
  then have "\<forall>c\<in>set ?z. (slug_char c \<or> c = 45) \<and> \<not> ascii_upper c \<and> \<not> is_space c"
    by (auto simp: slug_char_def ascii_upper_def is_space_def)
  moreover have "take 1 ?z \<noteq> [45]"
    using slugify_ends [of nfkd "text"] by (cases ?z) auto
  moreover have "take 1 (rev ?z) \<noteq> [45]"
    using slugify_ends [of nfkd "text"] by (cases ?z rule: rev_cases) auto
  moreover have "slugify nfkd ?z = ?z"
    using chars slugify_no_double slugify_ends assms(2) by (intro slug_fixed_point) auto
  ultimately show ?thesis
    using slugify_no_double by blast
qed

theorem slugify_shape_and_fixed_point_witness:
  "slugify (\<lambda>s. s) (py ''Hello  World 42'') = py ''hello-world-42'' \<and>
   slugify (\<lambda>s. s) (slugify (\<lambda>s. s) (py ''Hello  World 42'')) = py ''hello-world-42'' \<and>
   \<not> double_hyphen (slugify (\<lambda>s. s) (py ''Hello  World 42''))"
proof -
  have a: "\<forall>c\<in>set (py ''Hello  World 42''). ascii_letter c \<or> ascii_digit c \<or> c = 32"
    by (simp add: model_defs)
  have b: "\<forall>s::str. (\<forall>c\<in>set s. c < 128) \<longrightarrow> (\<lambda>s. s) s = s"
    by simp
  have c: "slugify (\<lambda>s. s) (py ''Hello  World 42'') = py ''hello-world-42''"
    by (simp add: model_defs)
  show ?thesis
    using slugify_shape_and_fixed_point [OF a b] c by simp
qed

end
